theory Spec2Isabelle
  imports Main
begin

section \<open>String tests used by both components\<close>

text \<open>
  References are JavaScript strings, modelled as \<open>string\<close>. The three patterns the
  components test for are ASCII, so matching on the characters of the model agrees with
  matching on UTF-16 code units.

  \<open>startsWith s p\<close> is \<^verbatim>\<open>s.startsWith(p)\<close>; \<open>includes_str s sub\<close> is
  \<^verbatim>\<open>s.includes(sub)\<close>: \<open>sub\<close> occurs in \<open>s\<close> as a contiguous run of characters.
\<close>

fun startsWith :: "string \<Rightarrow> string \<Rightarrow> bool" where
  "startsWith s [] = True"
| "startsWith [] (p # ps) = False"
| "startsWith (c # cs) (p # ps) = (c = p \<and> startsWith cs ps)"

fun includes_str :: "string \<Rightarrow> string \<Rightarrow> bool" where
  "includes_str [] sub = startsWith [] sub"
| "includes_str (c # cs) sub = (startsWith (c # cs) sub \<or> includes_str cs sub)"

text \<open>
  \<^verbatim>\<open>src.includes('.s3.') || src.includes('amazonaws.com')\<close>: the test of
  \<^verbatim>\<open>ImagePreview\<close> (ImageManager.tsx, line 21) and of \<^verbatim>\<open>ProductCard\<close>
  (ProductCard.tsx, line 70).
\<close>

definition isS3Url :: "string \<Rightarrow> bool" where
  "isS3Url src = (includes_str src ''.s3.'' \<or> includes_str src ''amazonaws.com'')"

section \<open>Answers of the HTTP collaborators\<close>

text \<open>
  What a \<^verbatim>\<open>fetch\<close> followed by \<^verbatim>\<open>response.json()\<close> can yield:
  \<^item> \<open>NetworkError\<close>: the promise of \<^verbatim>\<open>fetch\<close> rejects;
  \<^item> \<open>HttpResponse status None\<close>: a response arrived, but reading its body as JSON
    rejects (or the body is JSON \<^verbatim>\<open>null\<close>, whose property reads throw);
  \<^item> \<open>HttpResponse status (Some body)\<close>: a response whose body was read as a JSON
    value other than \<^verbatim>\<open>null\<close>, so that its properties can be read.
  \<^verbatim>\<open>response.ok\<close> is true exactly for the statuses 200 to 299.
\<close>

datatype 'b fetch_result = NetworkError | HttpResponse nat "'b option"

definition response_ok :: "nat \<Rightarrow> bool" where
  "response_ok status = (200 \<le> status \<and> status \<le> 299)"

text \<open>
  A property that may be absent (\<^verbatim>\<open>undefined\<close>) is an \<open>option\<close>.
  \<^verbatim>\<open>x || d\<close> on a string property yields \<open>d\<close> when \<open>x\<close> is absent or empty.
\<close>

definition or_else :: "string option \<Rightarrow> string \<Rightarrow> string" where
  "or_else x d = (case x of None \<Rightarrow> d | Some s \<Rightarrow> if s = [] then d else s)"

record delete_body =
  body_error :: "string option"
  body_message :: "string option"

record upload_body =
  body_urls :: "string list option"

record sign_body =
  body_signedUrl :: "string option"
  sign_error :: "string option"

section \<open>Decimal rendering of an index\<close>

text \<open>
  Template strings such as \<^verbatim>\<open>`delete-${idx}`\<close> and \<^verbatim>\<open>`${src}-${i}`\<close>
  render a non-negative integer index in decimal.
\<close>

definition digit_char :: "nat \<Rightarrow> char" where
  "digit_char d = ''0123456789'' ! d"

fun string_of_nat :: "nat \<Rightarrow> string" where
  "string_of_nat n =
     (if n < 10 then [digit_char n]
      else string_of_nat (n div 10) @ [digit_char (n mod 10)])"

declare string_of_nat.simps [simp del]

section \<open>ImageManager: removing an image\<close>

datatype toast_kind = ToastLoading | ToastSuccess | ToastError

text \<open>
  What one call of \<^verbatim>\<open>removeAt\<close> does to the outside: the URLs it sent to
  \<^verbatim>\<open>DELETE /api/admin/uploads/delete\<close>, the toasts it raised (kind, message, id)
  and the lists it passed to \<^verbatim>\<open>onChange\<close>, each in order.
\<close>

record removeAt_result =
  delete_requests :: "string list"
  toasts :: "(toast_kind \<times> string \<times> string) list"
  onChange_calls :: "string list list"

text \<open>
  \<^verbatim>\<open>images.filter((_, i) => i !== idx)\<close>
\<close>

definition filter_index :: "'a list \<Rightarrow> nat \<Rightarrow> 'a list" where
  "filter_index images idx = map snd (filter (\<lambda>(i, _). i \<noteq> idx) (enumerate 0 images))"

text \<open>
  \<^verbatim>\<open>removeAt\<close> (ImageManager.tsx, lines 86 to 125). \<^verbatim>\<open>images[idx]\<close> is
  \<^verbatim>\<open>undefined\<close> when \<open>idx\<close> is out of range; \<^verbatim>\<open>undefined\<close> and the empty
  string are falsy, so the storage branch is skipped for them. Inside the \<^verbatim>\<open>try\<close>,
  a rejected \<^verbatim>\<open>fetch\<close> and a rejected \<^verbatim>\<open>response.json()\<close> both reach the
  \<^verbatim>\<open>catch\<close>. The delete collaborator is the parameter \<open>delete_api\<close>.
  \<open>idx\<close> is the position the remove button was rendered for, a natural number. The
  calls of the logger have no effect on the list or the requests and are left out.
\<close>

definition removeAt ::
  "string list \<Rightarrow> nat \<Rightarrow> (string \<Rightarrow> delete_body fetch_result) \<Rightarrow> removeAt_result" where
  "removeAt images idx delete_api =
     (let imageUrl = (if idx < length images then Some (images ! idx) else None);
          toast_id = ''delete-'' @ string_of_nat idx;
          next = filter_index images idx
      in case imageUrl of
           None \<Rightarrow> \<lparr>delete_requests = [], toasts = [], onChange_calls = [next]\<rparr>
         | Some url \<Rightarrow>
             if url \<noteq> [] \<and>
                (includes_str url ''.s3.'' \<or> includes_str url ''amazonaws.com'' \<or>
                 startsWith url ''/uploads/'')
             then
               (case delete_api url of
                  NetworkError \<Rightarrow>
                    \<lparr>delete_requests = [url],
                     toasts = [(ToastLoading, ''Deleting image...'', toast_id),
                               (ToastError, ''Error deleting image. Please try again.'', toast_id)],
                     onChange_calls = []\<rparr>
                | HttpResponse status None \<Rightarrow>
                    \<lparr>delete_requests = [url],
                     toasts = [(ToastLoading, ''Deleting image...'', toast_id),
                               (ToastError, ''Error deleting image. Please try again.'', toast_id)],
                     onChange_calls = []\<rparr>
                | HttpResponse status (Some result) \<Rightarrow>
                    if \<not> response_ok status then
                      \<lparr>delete_requests = [url],
                       toasts = [(ToastLoading, ''Deleting image...'', toast_id),
                                 (ToastError,
                                  ''Failed to delete image: '' @
                                    or_else (body_error result) ''Unknown error'',
                                  toast_id)],
                       onChange_calls = []\<rparr>
                    else
                      \<lparr>delete_requests = [url],
                       toasts = [(ToastLoading, ''Deleting image...'', toast_id),
                                 (ToastSuccess, ''Image deleted successfully'', toast_id)],
                       onChange_calls = [next]\<rparr>)
             else \<lparr>delete_requests = [], toasts = [], onChange_calls = [next]\<rparr>)"

section \<open>ImageManager: uploading files\<close>

text \<open>
  What one call of \<^verbatim>\<open>onFiles\<close> does to the outside: the file lists it posted to
  \<^verbatim>\<open>/api/admin/uploads\<close>, the values it gave to \<^verbatim>\<open>setUploading\<close>, the lists
  it passed to \<^verbatim>\<open>onChange\<close>, and whether its promise rejected (the
  \<^verbatim>\<open>try\<close> has a \<^verbatim>\<open>finally\<close> and no \<^verbatim>\<open>catch\<close>).
\<close>

record 'f onFiles_result =
  upload_requests :: "'f list list"
  setUploading_calls :: "bool list"
  upload_onChange_calls :: "string list list"
  upload_rejected :: bool

text \<open>
  \<^verbatim>\<open>onFiles\<close> (ImageManager.tsx, lines 128 to 143). \<open>files\<close> is \<open>None\<close> for
  \<^verbatim>\<open>null\<close>. The body is read only when \<^verbatim>\<open>res.ok\<close>; \<^verbatim>\<open>data.urls || []\<close>
  is the empty list when the property is absent. The upload collaborator is the parameter
  \<open>upload_api\<close>.
\<close>

definition onFiles ::
  "string list \<Rightarrow> 'f list option \<Rightarrow> ('f list \<Rightarrow> upload_body fetch_result) \<Rightarrow> 'f onFiles_result" where
  "onFiles images files upload_api =
     (case files of
        None \<Rightarrow>
          \<lparr>upload_requests = [], setUploading_calls = [], upload_onChange_calls = [],
           upload_rejected = False\<rparr>
      | Some fs \<Rightarrow>
          if fs = [] then
            \<lparr>upload_requests = [], setUploading_calls = [], upload_onChange_calls = [],
             upload_rejected = False\<rparr>
          else
            (case upload_api fs of
               NetworkError \<Rightarrow>
                 \<lparr>upload_requests = [fs], setUploading_calls = [True, False],
                  upload_onChange_calls = [], upload_rejected = True\<rparr>
             | HttpResponse status body \<Rightarrow>
                 if response_ok status then
                   (case body of
                      None \<Rightarrow>
                        \<lparr>upload_requests = [fs], setUploading_calls = [True, False],
                         upload_onChange_calls = [], upload_rejected = True\<rparr>
                    | Some data \<Rightarrow>
                        \<lparr>upload_requests = [fs], setUploading_calls = [True, False],
                         upload_onChange_calls =
                           [images @ (case body_urls data of None \<Rightarrow> [] | Some urls \<Rightarrow> urls)],
                         upload_rejected = False\<rparr>)
                 else
                   \<lparr>upload_requests = [fs], setUploading_calls = [True, False],
                    upload_onChange_calls = [], upload_rejected = False\<rparr>))"

section \<open>ProductCard\<close>

text \<open>
  \<^verbatim>\<open>price\<close> is in integer minor-currency units. \<^verbatim>\<open>variants\<close> is optional in
  \<^verbatim>\<open>Product\<close>; \<^verbatim>\<open>description\<close> may be \<^verbatim>\<open>null\<close>. The fields
  \<^verbatim>\<open>unit\<close>, \<^verbatim>\<open>amount\<close> and \<^verbatim>\<open>stock\<close> are carried along; the price
  cell and the image do not read them.
\<close>

record ProductVariant =
  variant_id :: string
  variant_unit :: string
  amount :: int
  price :: int
  stock :: int

record Product =
  product_id :: string
  name :: string
  slug :: string
  description :: "string option"
  images :: "string list"
  variants :: "ProductVariant list option"

text \<open>An image is drawn by a plain \<^verbatim>\<open><img>\<close> or by the \<^verbatim>\<open>next/image\<close> component.\<close>

datatype image_element = ImgTag string | NextImage string

text \<open>
  \<^verbatim>\<open>product.images[0] || '/placeholder-product.jpg'\<close>: the first image, or the
  placeholder when there is none or it is the empty string.
\<close>

definition imageUrl :: "Product \<Rightarrow> string" where
  "imageUrl product =
     (case images product of
        [] \<Rightarrow> ''/placeholder-product.jpg''
      | u # _ \<Rightarrow> if u = [] then ''/placeholder-product.jpg'' else u)"

text \<open>The image element of the card (ProductCard.tsx, lines 70 to 86).\<close>

definition card_image :: "Product \<Rightarrow> image_element" where
  "card_image product =
     (if includes_str (imageUrl product) ''.s3.'' \<or> includes_str (imageUrl product) ''amazonaws.com''
      then ImgTag (imageUrl product)
      else NextImage (imageUrl product))"

text \<open>\<^verbatim>\<open>product.variants || []\<close>\<close>

definition variants_of :: "Product \<Rightarrow> ProductVariant list" where
  "variants_of product = (case variants product of None \<Rightarrow> [] | Some vs \<Rightarrow> vs)"

definition hasVariants :: "ProductVariant list \<Rightarrow> bool" where
  "hasVariants vs = (length vs > 0)"

text \<open>
  The initial value of \<^verbatim>\<open>selectedVariantId\<close>: \<^verbatim>\<open>variants[0]?.id || null\<close>.
  The state keeps this value until a variant button is clicked, also when the product's
  variants change.
\<close>

definition initialSelectedVariantId :: "ProductVariant list \<Rightarrow> string option" where
  "initialSelectedVariantId vs =
     (case vs of [] \<Rightarrow> None | v # _ \<Rightarrow> if variant_id v = [] then None else Some (variant_id v))"

text \<open>
  \<^verbatim>\<open>variants.find(v => v.id === selectedVariantId) || variants[0]\<close>, or
  \<^verbatim>\<open>null\<close> without variants. A variant is an object, hence truthy: the fallback is
  taken exactly when \<^verbatim>\<open>find\<close> finds nothing.
\<close>

definition selectedVariant :: "ProductVariant list \<Rightarrow> string option \<Rightarrow> ProductVariant option" where
  "selectedVariant vs selectedVariantId =
     (if \<not> hasVariants vs then None
      else case find (\<lambda>v. Some (variant_id v) = selectedVariantId) vs of
             Some v \<Rightarrow> Some v
           | None \<Rightarrow> Some (hd vs))"

text \<open>
  \<^verbatim>\<open>hasVariants ? Math.min(...variants.map(v => v.price)) : 0\<close>, and the same with
  \<^verbatim>\<open>Math.max\<close>.
\<close>

definition minPrice :: "ProductVariant list \<Rightarrow> int" where
  "minPrice vs = (case map price vs of [] \<Rightarrow> 0 | p # ps \<Rightarrow> fold min ps p)"

definition maxPrice :: "ProductVariant list \<Rightarrow> int" where
  "maxPrice vs = (case map price vs of [] \<Rightarrow> 0 | p # ps \<Rightarrow> fold max ps p)"

text \<open>
  What the price cell shows (ProductCard.tsx, lines 115 to 123): the text
  \<^verbatim>\<open>Price not available\<close>, \<^verbatim>\<open>formatPrice\<close> of one price, or
  \<^verbatim>\<open>formatPrice\<close> of two prices joined by \<^verbatim>\<open>" - "\<close>.
\<close>

datatype price_display = PriceNotAvailable | FormattedPrice int | FormattedRange int int

definition displayedPrice :: "ProductVariant list \<Rightarrow> string option \<Rightarrow> price_display" where
  "displayedPrice vs selectedVariantId =
     (if \<not> hasVariants vs then PriceNotAvailable
      else case selectedVariant vs selectedVariantId of
             Some v \<Rightarrow> FormattedPrice (price v)
           | None \<Rightarrow>
               if minPrice vs = maxPrice vs then FormattedPrice (minPrice vs)
               else FormattedRange (minPrice vs) (maxPrice vs))"

section \<open>ImageManager: one image preview\<close>

text \<open>
  The state of one mounted \<^verbatim>\<open>ImagePreview\<close>: its \<^verbatim>\<open>src\<close> prop and the three
  \<^verbatim>\<open>useState\<close> cells.
\<close>

record preview =
  src :: string
  signedUrl :: string
  loading :: bool
  error :: bool

text \<open>The initial values of the state cells (lines 16 to 18).\<close>

definition ImagePreview_init :: "string \<Rightarrow> preview" where
  "ImagePreview_init s = \<lparr>src = s, signedUrl = s, loading = False, error = False\<rparr>"

text \<open>
  The body of the effect (lines 24 to 50) up to the \<^verbatim>\<open>fetch\<close>: the new state and
  the URLs for which a request to \<^verbatim>\<open>/api/admin/sign-url\<close> was issued.
\<close>

definition ImagePreview_effect :: "preview \<Rightarrow> preview \<times> string list" where
  "ImagePreview_effect p =
     (if isS3Url (src p) then (p\<lparr>loading := True, error := False\<rparr>, [src p]) else (p, []))"

text \<open>Mounting runs the effect once.\<close>

definition ImagePreview_mount :: "string \<Rightarrow> preview \<times> string list" where
  "ImagePreview_mount s = ImagePreview_effect (ImagePreview_init s)"

text \<open>
  A later render of the same instance with prop \<open>s\<close>: the effect runs again exactly
  when a dependency (\<^verbatim>\<open>[src, isS3Url]\<close>, line 51) changed, that is when \<open>s\<close>
  differs from the previous prop.
\<close>

definition ImagePreview_update :: "string \<Rightarrow> preview \<Rightarrow> preview \<times> string list" where
  "ImagePreview_update s p =
     (if s = src p then (p, []) else ImagePreview_effect (p\<lparr>src := s\<rparr>))"

text \<open>
  The handlers of the signing request (lines 36 to 49), run on the instance that issued
  it. The status is not looked at; a truthy \<^verbatim>\<open>data.signedUrl\<close> is stored, anything
  else (rejected fetch, unreadable body, absent or empty \<^verbatim>\<open>signedUrl\<close>) reaches
  the \<^verbatim>\<open>catch\<close>.
\<close>

definition sign_settled :: "sign_body fetch_result \<Rightarrow> preview \<Rightarrow> preview" where
  "sign_settled r p =
     (case r of
        NetworkError \<Rightarrow> p\<lparr>error := True, loading := False\<rparr>
      | HttpResponse status None \<Rightarrow> p\<lparr>error := True, loading := False\<rparr>
      | HttpResponse status (Some data) \<Rightarrow>
          (case body_signedUrl data of
             None \<Rightarrow> p\<lparr>error := True, loading := False\<rparr>
           | Some u \<Rightarrow>
               if u = [] then p\<lparr>error := True, loading := False\<rparr>
               else p\<lparr>signedUrl := u, loading := False\<rparr>))"

text \<open>\<^verbatim>\<open>onError\<close> of the \<^verbatim>\<open><img>\<close> (line 69).\<close>

definition img_onError :: "preview \<Rightarrow> preview" where
  "img_onError p = p\<lparr>error := True\<rparr>"

text \<open>What the preview renders (lines 55 to 73).\<close>

datatype preview_view = LoadingView | FailedView | Shown image_element

definition ImagePreview_view :: "preview \<Rightarrow> preview_view" where
  "ImagePreview_view p =
     (if loading p then LoadingView
      else if error p then FailedView
      else if isS3Url (src p) then Shown (ImgTag (signedUrl p))
      else Shown (NextImage (src p)))"

definition shows_img_tag :: "preview \<Rightarrow> bool" where
  "shows_img_tag p = (case ImagePreview_view p of Shown (ImgTag u) \<Rightarrow> True | _ \<Rightarrow> False)"

section \<open>ImageManager: the list of previews\<close>

text \<open>
  \<^verbatim>\<open>ImageManager\<close> renders one \<^verbatim>\<open>ImagePreview\<close> per entry of \<^verbatim>\<open>images\<close>,
  inside an element with \<^verbatim>\<open>key={`${src}-${i}`}\<close> (line 149).
\<close>

definition key_of :: "string \<Rightarrow> nat \<Rightarrow> string" where
  "key_of s i = s @ ''-'' @ string_of_nat i"

text \<open>
  React keeps a child instance from one render to the next exactly when the new render
  has a child with the same key; a child whose key is new is mounted afresh (new state
  cells, effect run once), and an instance whose key is gone is unmounted: its state is
  dropped, and a state setter called on it later changes nothing. Each instance gets a
  number \<open>inst\<close> when it is mounted; the handlers of a signing request close over the
  setters of the instance that issued it, so a request in flight is recorded with that
  number and the URL it was issued for.
\<close>

record mounted_preview =
  key :: string
  inst :: nat
  state :: preview

record manager =
  current_images :: "string list"
  mounted :: "mounted_preview list"
  in_flight :: "(nat \<times> string) list"
  next_inst :: nat

text \<open>
  One render of the children against the previously mounted ones: the new children in
  order, the signing requests issued by their effects, and the next free instance number.
\<close>

fun reconcile ::
  "mounted_preview list \<Rightarrow> (nat \<times> string) list \<Rightarrow> nat \<Rightarrow>
     mounted_preview list \<times> (nat \<times> string) list \<times> nat" where
  "reconcile old [] n = ([], [], n)"
| "reconcile old ((i, s) # rest) n =
     (case find (\<lambda>m. key m = key_of s i) old of
        Some m \<Rightarrow>
          (case ImagePreview_update s (state m) of (p, reqs) \<Rightarrow>
           case reconcile old rest n of (ms, rq, n') \<Rightarrow>
             (m\<lparr>state := p\<rparr> # ms, map (Pair (inst m)) reqs @ rq, n'))
      | None \<Rightarrow>
          (case ImagePreview_mount s of (p, reqs) \<Rightarrow>
           case reconcile old rest (Suc n) of (ms, rq, n') \<Rightarrow>
             (\<lparr>key = key_of s i, inst = n, state = p\<rparr> # ms, map (Pair n) reqs @ rq, n')))"

definition ImageManager_render :: "manager \<Rightarrow> string list \<Rightarrow> manager" where
  "ImageManager_render mg imgs =
     (case reconcile (mounted mg) (enumerate 0 imgs) (next_inst mg) of (ms, rq, n') \<Rightarrow>
        \<lparr>current_images = imgs, mounted = ms, in_flight = in_flight mg @ rq, next_inst = n'\<rparr>)"

definition ImageManager_mount :: "string list \<Rightarrow> manager" where
  "ImageManager_mount imgs =
     ImageManager_render
       \<lparr>current_images = [], mounted = [], in_flight = [], next_inst = 0\<rparr> imgs"

text \<open>
  What can happen to a mounted manager: the parent renders it with a list of images
  (for instance the one it was given through \<^verbatim>\<open>onChange\<close>); the \<open>i\<close>-th signing
  request in flight settles with some answer; the \<^verbatim>\<open><img>\<close> of the \<open>j\<close>-th
  preview fails to load. An event that cannot happen in a state yields \<open>None\<close>.
\<close>

datatype event =
  Rerender "string list"
| SignSettled nat "sign_body fetch_result"
| ImgError nat

fun step :: "event \<Rightarrow> manager \<Rightarrow> manager option" where
  "step (Rerender imgs) mg = Some (ImageManager_render mg imgs)"
| "step (SignSettled i r) mg =
     (if i < length (in_flight mg) then
        Some (mg\<lparr>mounted :=
                    map (\<lambda>m. if inst m = fst (in_flight mg ! i)
                              then m\<lparr>state := sign_settled r (state m)\<rparr> else m)
                      (mounted mg),
                  in_flight := take i (in_flight mg) @ drop (Suc i) (in_flight mg)\<rparr>)
      else None)"
| "step (ImgError j) mg =
     (if j < length (mounted mg) \<and> shows_img_tag (state (mounted mg ! j)) then
        Some (mg\<lparr>mounted :=
                    (mounted mg)[j := (mounted mg ! j)\<lparr>state := img_onError (state (mounted mg ! j))\<rparr>]\<rparr>)
      else None)"

fun run :: "manager \<Rightarrow> event list \<Rightarrow> manager option" where
  "run mg [] = Some mg"
| "run mg (e # es) = (case step e mg of None \<Rightarrow> None | Some mg' \<Rightarrow> run mg' es)"

section \<open>What holds of the previews in every state\<close>

text \<open>
  The facts that every event preserves. Each mounted preview has an instance number
  below \<open>next_inst\<close> and a key built from the reference it holds; a preview that holds
  a reference outside object storage is still in its initial state. Each request in flight
  was issued for an object-storage reference by an instance numbered below \<open>next_inst\<close>,
  and if that instance is still mounted, it holds the reference of the request. The
  previews hold the entries of \<^verbatim>\<open>images\<close>, in order.
\<close>

definition manager_inv :: "manager \<Rightarrow> bool" where
  "manager_inv mg \<longleftrightarrow>
     (\<forall>m \<in> set (mounted mg).
        inst m < next_inst mg \<and>
        (\<exists>i. key m = key_of (src (state m)) i) \<and>
        (\<not> isS3Url (src (state m)) \<longrightarrow> state m = ImagePreview_init (src (state m)))) \<and>
     (\<forall>q \<in> set (in_flight mg).
        fst q < next_inst mg \<and> isS3Url (snd q) \<and>
        (\<forall>m \<in> set (mounted mg). inst m = fst q \<longrightarrow> src (state m) = snd q)) \<and>
     map (\<lambda>m. src (state m)) (mounted mg) = current_images mg"

text \<open>
  A preview mounted by the current render: its number lies between the counter before
  and after the render, and its state is the one mounting produced.
\<close>

definition fresh_between :: "nat \<Rightarrow> nat \<Rightarrow> mounted_preview \<Rightarrow> bool" where
  "fresh_between n n' m \<longleftrightarrow>
     n \<le> inst m \<and> inst m < n' \<and> state m = fst (ImagePreview_mount (src (state m))) \<and>
     (\<exists>i. key m = key_of (src (state m)) i)"

text \<open>
  What one render of the children guarantees about its result, given that the old
  instances are numbered below \<open>n\<close>.
\<close>

definition reconcile_ok ::
  "mounted_preview list \<Rightarrow> (nat \<times> string) list \<Rightarrow> nat \<Rightarrow>
     mounted_preview list \<times> (nat \<times> string) list \<times> nat \<Rightarrow> bool" where
  "reconcile_ok old es n res \<longleftrightarrow>
     (case res of (ms, rq, n') \<Rightarrow>
        n \<le> n' \<and>
        (\<forall>m \<in> set ms. m \<in> set old \<or> fresh_between n n' m) \<and>
        (\<forall>q \<in> set rq. n \<le> fst q \<and> fst q < n' \<and> isS3Url (snd q) \<and>
                       (\<forall>m \<in> set ms. inst m = fst q \<longrightarrow> src (state m) = snd q)) \<and>
        map (\<lambda>m. src (state m)) ms = map snd es)"

section \<open>Facts about the string tests and the index filter\<close>

lemma startsWith_iff: "startsWith s p \<longleftrightarrow> (\<exists>t. s = p @ t)"
  by (induction s p rule: startsWith.induct) auto

lemma includes_str_iff: "includes_str s sub \<longleftrightarrow> (\<exists>a b. s = a @ sub @ b)"
proof (induction s)
  case Nil
  show ?case by (cases sub) auto
next
  case (Cons c cs)
  show ?case
  proof
    assume "includes_str (c # cs) sub"
    then consider "startsWith (c # cs) sub" | "includes_str cs sub" by auto
    then show "\<exists>a b. c # cs = a @ sub @ b"
    proof cases
      case 1
      then obtain t where "c # cs = sub @ t" by (auto simp: startsWith_iff)
      then have "c # cs = [] @ sub @ t" by simp
      then show ?thesis by blast
    next
      case 2
      then obtain a b where "cs = a @ sub @ b" using Cons.IH by auto
      then have "c # cs = (c # a) @ sub @ b" by simp
      then show ?thesis by blast
    qed
  next
    assume "\<exists>a b. c # cs = a @ sub @ b"
    then obtain a b where ab: "c # cs = a @ sub @ b" by auto
    show "includes_str (c # cs) sub"
    proof (cases a)
      case Nil
      with ab have "startsWith (c # cs) sub" by (auto simp: startsWith_iff)
      then show ?thesis by simp
    next
      case (Cons x a')
      with ab have "cs = a' @ sub @ b" by simp
      then have "includes_str cs sub" using Cons.IH by auto
      then show ?thesis by simp
    qed
  qed
qed

lemma filter_enumerate_above:
  "idx < n \<Longrightarrow> filter (\<lambda>(i, _). i \<noteq> idx) (enumerate n xs) = enumerate n xs"
  by (induction xs arbitrary: n) auto

lemma filter_index_offset:
  "map snd (filter (\<lambda>(i, _). i \<noteq> n + idx) (enumerate n xs)) = take idx xs @ drop (Suc idx) xs"
proof (induction xs arbitrary: n idx)
  case Nil
  show ?case by simp
next
  case (Cons x xs)
  show ?case
  proof (cases idx)
    case 0
    then show ?thesis by (simp add: filter_enumerate_above)
  next
    case (Suc k)
    have "map snd (filter (\<lambda>(i, _). i \<noteq> Suc n + k) (enumerate (Suc n) xs))
            = take k xs @ drop (Suc k) xs"
      by (rule Cons.IH)
    with Suc show ?thesis by simp
  qed
qed

lemma filter_index_eq: "filter_index xs idx = take idx xs @ drop (Suc idx) xs"
  using filter_index_offset [of 0 idx xs] by (simp add: filter_index_def)

lemma filter_index_out_of_range: "length xs \<le> idx \<Longrightarrow> filter_index xs idx = xs"
  by (simp add: filter_index_eq)

section \<open>Removing, uploading, the product card and the string tests: the claims\<close>

text \<open>
  Claim C10. When the index is out of range (\<open>idx \<ge> length imgs\<close>, so that the lookup
  yields no reference), \<^verbatim>\<open>removeAt\<close> sends no request to the delete collaborator,
  and the list it hands to \<^verbatim>\<open>onChange\<close> is element-wise equal to the input list.
\<close>

theorem removeAt_out_of_range_keeps_list:
  assumes "length imgs \<le> idx"
  shows "delete_requests (removeAt imgs idx delete_api) = [] \<and>
         onChange_calls (removeAt imgs idx delete_api) = [imgs]"
  using assms by (simp add: removeAt_def Let_def filter_index_out_of_range)

theorem removeAt_out_of_range_keeps_list_witness:
  "length [''/uploads/a.png'', ''https://b.s3.amazonaws.com/x.jpg''] \<le> (2::nat) \<and>
   delete_requests (removeAt [''/uploads/a.png'', ''https://b.s3.amazonaws.com/x.jpg''] 2
                      (\<lambda>u. NetworkError)) = [] \<and>
   onChange_calls (removeAt [''/uploads/a.png'', ''https://b.s3.amazonaws.com/x.jpg''] 2
                      (\<lambda>u. NetworkError))
     = [[''/uploads/a.png'', ''https://b.s3.amazonaws.com/x.jpg'']]"
  using removeAt_out_of_range_keeps_list
          [of "[''/uploads/a.png'', ''https://b.s3.amazonaws.com/x.jpg'']" 2 "\<lambda>u. NetworkError"]
  by simp

text \<open>
  Claim C7. For a reference at a valid index that neither matches the object-storage
  pattern nor begins with \<^verbatim>\<open>/uploads/\<close>, \<^verbatim>\<open>removeAt\<close> sends no request and
  goes straight to handing \<^verbatim>\<open>onChange\<close> the list without that entry, whatever the
  delete collaborator would have answered.
\<close>

theorem removeAt_unmanaged_removes_without_request:
  assumes "idx < length imgs"
    and "\<not> isS3Url (imgs ! idx)"
    and "\<not> startsWith (imgs ! idx) ''/uploads/''"
  shows "delete_requests (removeAt imgs idx delete_api) = [] \<and>
         onChange_calls (removeAt imgs idx delete_api)
           = [take idx imgs @ drop (Suc idx) imgs]"
  using assms by (simp add: removeAt_def Let_def isS3Url_def filter_index_eq)

theorem removeAt_unmanaged_removes_without_request_witness:
  "(1::nat) < length [''/uploads/a.png'', ''https://cdn.example.com/x.jpg'', ''/uploads/c.png''] \<and>
   \<not> isS3Url ([''/uploads/a.png'', ''https://cdn.example.com/x.jpg'', ''/uploads/c.png''] ! 1) \<and>
   \<not> startsWith ([''/uploads/a.png'', ''https://cdn.example.com/x.jpg'', ''/uploads/c.png''] ! 1)
        ''/uploads/'' \<and>
   delete_requests (removeAt [''/uploads/a.png'', ''https://cdn.example.com/x.jpg'', ''/uploads/c.png'']
                      1 (\<lambda>u. NetworkError)) = [] \<and>
   onChange_calls (removeAt [''/uploads/a.png'', ''https://cdn.example.com/x.jpg'', ''/uploads/c.png'']
                      1 (\<lambda>u. NetworkError))
     = [[''/uploads/a.png'', ''/uploads/c.png'']]"
  using removeAt_unmanaged_removes_without_request
          [of 1 "[''/uploads/a.png'', ''https://cdn.example.com/x.jpg'', ''/uploads/c.png'']"
              "\<lambda>u. NetworkError"]
  by (simp add: isS3Url_def)

text \<open>
  Claim C4, as stated, counts a body \<^verbatim>\<open>{error}\<close> as a failed deletion that leaves
  the list alone. \<^verbatim>\<open>removeAt\<close> looks at \<^verbatim>\<open>response.ok\<close> only: a response with
  status 200 and body \<^verbatim>\<open>{error: "not found"}\<close> is taken as success, and
  \<^verbatim>\<open>onChange\<close> receives the list without the entry.
\<close>

theorem removeAt_error_body_with_2xx_removes:
  "response_ok 200 \<and>
   onChange_calls
     (removeAt [''/uploads/a.png'', ''/uploads/b.png''] 0
        (\<lambda>u. HttpResponse 200 (Some \<lparr>body_error = Some ''not found'', body_message = None\<rparr>)))
     = [[''/uploads/b.png'']]"
  by (simp add: removeAt_def Let_def response_ok_def filter_index_eq)

text \<open>
  Claim C4, amended. For a managed reference (object-storage pattern or prefix
  \<^verbatim>\<open>/uploads/\<close>) at a valid index: if the \<^verbatim>\<open>fetch\<close> rejects, or the body of
  the response cannot be read as JSON, or the response has a status outside 200 to 299
  (whatever its body), then \<^verbatim>\<open>onChange\<close> is never called.
\<close>

theorem removeAt_failure_keeps_list:
  assumes "idx < length imgs"
    and "isS3Url (imgs ! idx) \<or> startsWith (imgs ! idx) ''/uploads/''"
    and "delete_api (imgs ! idx) = NetworkError \<or>
         (\<exists>status. delete_api (imgs ! idx) = HttpResponse status None) \<or>
         (\<exists>status body. delete_api (imgs ! idx) = HttpResponse status (Some body) \<and>
                         \<not> response_ok status)"
  shows "onChange_calls (removeAt imgs idx delete_api) = []"
proof -
  from assms(2) have "imgs ! idx \<noteq> []"
    by (auto simp: isS3Url_def)
  with assms show ?thesis
    by (auto simp: removeAt_def Let_def isS3Url_def)
qed

theorem removeAt_failure_keeps_list_witness:
  "(0::nat) < length [''/uploads/abc.jpg''] \<and>
   (isS3Url ([''/uploads/abc.jpg''] ! 0) \<or> startsWith ([''/uploads/abc.jpg''] ! 0) ''/uploads/'') \<and>
   \<not> response_ok 404 \<and>
   onChange_calls
     (removeAt [''/uploads/abc.jpg''] 0
        (\<lambda>u. HttpResponse 404 (Some \<lparr>body_error = Some ''not found'', body_message = None\<rparr>)))
     = []"
  using removeAt_failure_keeps_list
          [of 0 "[''/uploads/abc.jpg'']"
              "\<lambda>u. HttpResponse 404 (Some \<lparr>body_error = Some ''not found'', body_message = None\<rparr>)"]
  by (simp add: response_ok_def)

text \<open>
  Claim C5, as stated, promises the shortened list for every 2xx response. A response with
  status 204 whose body is not JSON makes \<^verbatim>\<open>response.json()\<close> reject, and a
  2xx response whose body is JSON \<^verbatim>\<open>null\<close> makes the read of
  \<^verbatim>\<open>result.message\<close> throw; both are the answer \<open>HttpResponse status None\<close>,
  both reach the \<^verbatim>\<open>catch\<close>, which treats them as a failed deletion:
  \<^verbatim>\<open>onChange\<close> is not called.
\<close>

theorem removeAt_2xx_unreadable_body_keeps_list:
  "response_ok 204 \<and>
   onChange_calls (removeAt [''/uploads/a.png'', ''/uploads/b.png''] 0 (\<lambda>u. HttpResponse 204 None))
     = []"
  by (simp add: removeAt_def Let_def response_ok_def)

text \<open>
  Claim C5, amended. For every list and valid index, if the delete collaborator answers
  the reference at that index with a 2xx response whose body is read as a JSON value other
  than \<^verbatim>\<open>null\<close>, then \<^verbatim>\<open>onChange\<close> is called once, with the input list
  without the element at that index: the elements before it followed by the elements
  after it, in their order.
\<close>

theorem removeAt_success_removes_exactly_one:
  assumes "idx < length imgs"
    and "delete_api (imgs ! idx) = HttpResponse status (Some body)"
    and "response_ok status"
  shows "onChange_calls (removeAt imgs idx delete_api)
           = [take idx imgs @ drop (Suc idx) imgs]"
  using assms by (simp add: removeAt_def Let_def filter_index_eq)

theorem removeAt_success_removes_exactly_one_witness:
  "(1::nat) < length [''/uploads/a.png'', ''https://b.s3.amazonaws.com/x.jpg'', ''/uploads/c.png''] \<and>
   response_ok 200 \<and>
   onChange_calls
     (removeAt [''/uploads/a.png'', ''https://b.s3.amazonaws.com/x.jpg'', ''/uploads/c.png''] 1
        (\<lambda>u. HttpResponse 200 (Some \<lparr>body_error = None, body_message = Some ''deleted''\<rparr>)))
     = [[''/uploads/a.png'', ''/uploads/c.png'']]"
  using removeAt_success_removes_exactly_one
          [of 1 "[''/uploads/a.png'', ''https://b.s3.amazonaws.com/x.jpg'', ''/uploads/c.png'']"
              "\<lambda>u. HttpResponse 200 (Some \<lparr>body_error = None, body_message = Some ''deleted''\<rparr>)"
              200 "\<lparr>body_error = None, body_message = Some ''deleted''\<rparr>"]
  by (simp add: response_ok_def)

text \<open>
  Claim C8. For a successful upload (some files were posted, the response is 2xx and its
  body has a \<^verbatim>\<open>urls\<close> array), \<^verbatim>\<open>onChange\<close> is called once with the input
  list followed by the returned URLs: the earlier entries are an unchanged prefix.
\<close>

theorem onFiles_success_appends:
  assumes "fs \<noteq> []"
    and "upload_api fs = HttpResponse status (Some data)"
    and "response_ok status"
    and "body_urls data = Some urls"
  shows "upload_onChange_calls (onFiles imgs (Some fs) upload_api) = [imgs @ urls]"
  using assms by (simp add: onFiles_def)

theorem onFiles_success_appends_witness:
  "[''f1.png'', ''f2.png''] \<noteq> [] \<and> response_ok 200 \<and>
   upload_onChange_calls
     (onFiles [''/uploads/a.png''] (Some [''f1.png'', ''f2.png''])
        (\<lambda>fs. HttpResponse 200 (Some \<lparr>body_urls = Some [''/uploads/f1.png'', ''/uploads/f2.png'']\<rparr>)))
     = [[''/uploads/a.png'', ''/uploads/f1.png'', ''/uploads/f2.png'']]"
  using onFiles_success_appends
          [of "[''f1.png'', ''f2.png'']"
              "\<lambda>fs. HttpResponse 200 (Some \<lparr>body_urls = Some [''/uploads/f1.png'', ''/uploads/f2.png'']\<rparr>)"
              200 "\<lparr>body_urls = Some [''/uploads/f1.png'', ''/uploads/f2.png'']\<rparr>"
              "[''/uploads/f1.png'', ''/uploads/f2.png'']" "[''/uploads/a.png'']"]
  by (simp add: response_ok_def)

text \<open>
  Claim C9. For a product without images, the card's image URL is the fixed placeholder
  \<^verbatim>\<open>/placeholder-product.jpg\<close>, which does not match the object-storage pattern
  and is therefore drawn by the \<^verbatim>\<open>next/image\<close> branch.
\<close>

theorem card_image_placeholder:
  assumes "images product = []"
  shows "imageUrl product = ''/placeholder-product.jpg'' \<and>
         card_image product = NextImage ''/placeholder-product.jpg''"
  using assms by (simp add: imageUrl_def card_image_def)

theorem card_image_placeholder_witness:
  "images \<lparr>product_id = ''p1'', name = ''Rice'', slug = ''rice'', description = None,
            images = [], variants = None\<rparr> = [] \<and>
   imageUrl \<lparr>product_id = ''p1'', name = ''Rice'', slug = ''rice'', description = None,
              images = [], variants = None\<rparr> = ''/placeholder-product.jpg'' \<and>
   card_image \<lparr>product_id = ''p1'', name = ''Rice'', slug = ''rice'', description = None,
                images = [], variants = None\<rparr> = NextImage ''/placeholder-product.jpg''"
  using card_image_placeholder
          [of "\<lparr>product_id = ''p1'', name = ''Rice'', slug = ''rice'', description = None,
                images = [], variants = None\<rparr>"]
  by simp

text \<open>
  Claim C1, as stated, expects the range from the lowest to the highest price when no id
  is selected. With two variants priced 300 and 700 and \<^verbatim>\<open>selectedVariantId\<close>
  \<^verbatim>\<open>null\<close>, the card shows the single price 300: \<^verbatim>\<open>selectedVariant\<close> falls
  back to the first variant, so the range branch is not reached.
\<close>

theorem displayedPrice_no_selection_is_not_range:
  "displayedPrice
     [\<lparr>variant_id = ''v1'', variant_unit = ''KG'', amount = 1, price = 300, stock = 5\<rparr>,
      \<lparr>variant_id = ''v2'', variant_unit = ''KG'', amount = 2, price = 700, stock = 5\<rparr>] None
     = FormattedPrice 300 \<and>
   displayedPrice
     [\<lparr>variant_id = ''v1'', variant_unit = ''KG'', amount = 1, price = 300, stock = 5\<rparr>,
      \<lparr>variant_id = ''v2'', variant_unit = ''KG'', amount = 2, price = 700, stock = 5\<rparr>] None
     \<noteq> FormattedRange 300 700 \<and>
   minPrice
     [\<lparr>variant_id = ''v1'', variant_unit = ''KG'', amount = 1, price = 300, stock = 5\<rparr>,
      \<lparr>variant_id = ''v2'', variant_unit = ''KG'', amount = 2, price = 700, stock = 5\<rparr>] = 300 \<and>
   maxPrice
     [\<lparr>variant_id = ''v1'', variant_unit = ''KG'', amount = 1, price = 300, stock = 5\<rparr>,
      \<lparr>variant_id = ''v2'', variant_unit = ''KG'', amount = 2, price = 700, stock = 5\<rparr>] = 700"
  by (simp add: displayedPrice_def selectedVariant_def hasVariants_def minPrice_def maxPrice_def)

text \<open>
  Claim C1, amended. For every non-empty variant list (in particular one with two or more
  differing prices) and \<^verbatim>\<open>selectedVariantId\<close> \<^verbatim>\<open>null\<close>, the displayed price
  is the price of the first variant.
\<close>

theorem displayedPrice_no_selection_is_first:
  assumes "vs \<noteq> []"
  shows "displayedPrice vs None = FormattedPrice (price (hd vs))"
proof -
  have "find (\<lambda>v. Some (variant_id v) = None) vs = None"
    by (simp add: find_None_iff)
  with assms show ?thesis
    by (simp add: displayedPrice_def selectedVariant_def hasVariants_def)
qed

theorem displayedPrice_no_selection_is_first_witness:
  "[\<lparr>variant_id = ''v1'', variant_unit = ''KG'', amount = 1, price = 300, stock = 5\<rparr>,
    \<lparr>variant_id = ''v2'', variant_unit = ''KG'', amount = 2, price = 700, stock = 5\<rparr>] \<noteq> [] \<and>
   displayedPrice
     [\<lparr>variant_id = ''v1'', variant_unit = ''KG'', amount = 1, price = 300, stock = 5\<rparr>,
      \<lparr>variant_id = ''v2'', variant_unit = ''KG'', amount = 2, price = 700, stock = 5\<rparr>] None
     = FormattedPrice 300"
  using displayedPrice_no_selection_is_first
          [of "[\<lparr>variant_id = ''v1'', variant_unit = ''KG'', amount = 1, price = 300, stock = 5\<rparr>,
                \<lparr>variant_id = ''v2'', variant_unit = ''KG'', amount = 2, price = 700, stock = 5\<rparr>]"]
  by simp

text \<open>
  Claim C3, as stated, says no string both matches the object-storage pattern and begins
  with \<^verbatim>\<open>/uploads/\<close>. The string \<^verbatim>\<open>/uploads/amazonaws.com.jpg\<close> does both.
\<close>

theorem uploads_prefix_can_match_s3_pattern:
  "isS3Url ''/uploads/amazonaws.com.jpg'' \<and> startsWith ''/uploads/amazonaws.com.jpg'' ''/uploads/''"
  by (simp add: isS3Url_def)

text \<open>
  Claim C3, amended. The object-storage test is a function of the string alone, and a
  string that begins with \<^verbatim>\<open>/uploads/\<close> matches it exactly when the part after
  that prefix contains \<^verbatim>\<open>.s3.\<close> or \<^verbatim>\<open>amazonaws.com\<close>: the prefix itself
  never contributes a match, but it does not exclude one either.
\<close>

theorem isS3Url_after_uploads_prefix:
  "startsWith (''/uploads/'' @ t) ''/uploads/'' \<and> isS3Url (''/uploads/'' @ t) = isS3Url t"
  by (simp add: isS3Url_def)

theorem isS3Url_after_uploads_prefix_witness:
  "startsWith (''/uploads/'' @ ''x.s3.y'') ''/uploads/'' \<and> isS3Url (''/uploads/'' @ ''x.s3.y'') \<and>
   \<not> isS3Url (''/uploads/'' @ ''abc.jpg'')"
  using isS3Url_after_uploads_prefix [of "''x.s3.y''"] isS3Url_after_uploads_prefix [of "''abc.jpg''"]
  by (simp add: isS3Url_def)

section \<open>The previews: keys, rendering and the invariant\<close>

lemma digit_char_not_dash: "d < 10 \<Longrightarrow> digit_char d \<noteq> CHR ''-''"
proof -
  assume "d < 10"
  then have "digit_char d \<in> set ''0123456789''"
    unfolding digit_char_def by (intro nth_mem) simp
  then show ?thesis by auto
qed

lemma string_of_nat_no_dash: "CHR ''-'' \<notin> set (string_of_nat n)"
proof (induction n rule: string_of_nat.induct)
  case (1 n)
  show ?case
  proof (cases "n < 10")
    case True
    then show ?thesis
      using digit_char_not_dash [of n] by (subst string_of_nat.simps) auto
  next
    case False
    have "n mod 10 < 10" by simp
    then have "digit_char (n mod 10) \<noteq> CHR ''-''" by (rule digit_char_not_dash)
    with False 1 show ?thesis
      by (subst string_of_nat.simps) auto
  qed
qed

lemma split_at_first:
  assumes "x \<notin> set xs" and "x \<notin> set xs'" and "xs @ x # ys = xs' @ x # ys'"
  shows "ys = ys'"
  using assms
proof (induction xs arbitrary: xs')
  case Nil
  then show ?case by (cases xs') auto
next
  case (Cons a xs)
  then show ?case by (cases xs') auto
qed

lemma key_of_src:
  assumes "key_of s i = key_of s' j"
  shows "s = s'"
proof -
  from assms have "rev (s @ CHR ''-'' # string_of_nat i) = rev (s' @ CHR ''-'' # string_of_nat j)"
    by (simp add: key_of_def)
  then have "rev (string_of_nat i) @ CHR ''-'' # rev s = rev (string_of_nat j) @ CHR ''-'' # rev s'"
    by simp
  moreover have "CHR ''-'' \<notin> set (rev (string_of_nat i))" "CHR ''-'' \<notin> set (rev (string_of_nat j))"
    by (simp_all add: string_of_nat_no_dash)
  ultimately have "rev s = rev s'"
    by (rule split_at_first [rotated 2])
  then show ?thesis by simp
qed

lemma mount_src: "src (fst (ImagePreview_mount s)) = s"
  by (simp add: ImagePreview_mount_def ImagePreview_effect_def ImagePreview_init_def)

lemma mount_requests: "snd (ImagePreview_mount s) = (if isS3Url s then [s] else [])"
  by (simp add: ImagePreview_mount_def ImagePreview_effect_def ImagePreview_init_def)

lemma mount_local: "\<not> isS3Url s \<Longrightarrow> fst (ImagePreview_mount s) = ImagePreview_init s"
  by (simp add: ImagePreview_mount_def ImagePreview_effect_def ImagePreview_init_def)

lemma update_same: "ImagePreview_update (src p) p = (p, [])"
  by (simp add: ImagePreview_update_def)

lemma reconcile_ok_Nil: "reconcile_ok old [] n ([], [], n)"
  by (simp add: reconcile_ok_def)

lemma reconcile_ok_kept:
  assumes rest: "reconcile_ok old rest n (ms, rq, n')"
    and m: "m \<in> set old" "inst m < n" "src (state m) = s"
  shows "reconcile_ok old ((i, s) # rest) n (m # ms, rq, n')"
  using assms unfolding reconcile_ok_def by auto

lemma reconcile_ok_fresh:
  assumes rest: "reconcile_ok old rest (Suc n) (ms, rq, n')"
    and old: "\<forall>m \<in> set old. inst m < n"
  shows "reconcile_ok old ((i, s) # rest) n
           (\<lparr>key = key_of s i, inst = n, state = fst (ImagePreview_mount s)\<rparr> # ms,
            map (Pair n) (snd (ImagePreview_mount s)) @ rq, n')"
proof -
  let ?h = "\<lparr>key = key_of s i, inst = n, state = fst (ImagePreview_mount s)\<rparr>"
  from rest have le: "Suc n \<le> n'"
    and ms: "\<forall>m \<in> set ms. m \<in> set old \<or> fresh_between (Suc n) n' m"
    and rq: "\<forall>q \<in> set rq. Suc n \<le> fst q \<and> fst q < n' \<and> isS3Url (snd q) \<and>
                       (\<forall>m \<in> set ms. inst m = fst q \<longrightarrow> src (state m) = snd q)"
    and srcs: "map (\<lambda>m. src (state m)) ms = map snd rest"
    unfolding reconcile_ok_def by auto
  have h: "fresh_between n n' ?h"
    using le by (auto simp: fresh_between_def mount_src)
  have ms': "\<forall>m \<in> set (?h # ms). m \<in> set old \<or> fresh_between n n' m"
    using h ms by (auto simp: fresh_between_def)
  have no_n: "\<forall>m \<in> set ms. inst m \<noteq> n"
    using ms old by (auto simp: fresh_between_def)
  have rq1: "\<forall>q \<in> set (map (Pair n) (snd (ImagePreview_mount s))).
               n \<le> fst q \<and> fst q < n' \<and> isS3Url (snd q) \<and>
               (\<forall>m \<in> set (?h # ms). inst m = fst q \<longrightarrow> src (state m) = snd q)"
    using le no_n by (auto simp: mount_requests mount_src split: if_splits)
  have rq2: "\<forall>q \<in> set rq.
               n \<le> fst q \<and> fst q < n' \<and> isS3Url (snd q) \<and>
               (\<forall>m \<in> set (?h # ms). inst m = fst q \<longrightarrow> src (state m) = snd q)"
    using rq by auto
  show ?thesis
    unfolding reconcile_ok_def using le ms' rq1 rq2 srcs
    by (auto simp: mount_src)
qed

lemma reconcile_result_ok:
  assumes "\<forall>m \<in> set old. inst m < n \<and> (\<exists>i. key m = key_of (src (state m)) i)"
  shows "reconcile_ok old es n (reconcile old es n)"
  using assms
proof (induction es arbitrary: n)
  case Nil
  show ?case by (simp add: reconcile_ok_Nil)
next
  case (Cons e es)
  obtain i s where e: "e = (i, s)" by (cases e)
  show ?case
  proof (cases "find (\<lambda>m. key m = key_of s i) old")
    case None
    obtain ms rq n' where r: "reconcile old es (Suc n) = (ms, rq, n')"
      by (cases "reconcile old es (Suc n)")
    have "reconcile_ok old es (Suc n) (reconcile old es (Suc n))"
      using Cons.prems by (intro Cons.IH) auto
    with r have "reconcile_ok old es (Suc n) (ms, rq, n')" by simp
    then have "reconcile_ok old ((i, s) # es) n
           (\<lparr>key = key_of s i, inst = n, state = fst (ImagePreview_mount s)\<rparr> # ms,
            map (Pair n) (snd (ImagePreview_mount s)) @ rq, n')"
      using Cons.prems by (intro reconcile_ok_fresh) auto
    with None r e show ?thesis
      by (simp add: case_prod_beta)
  next
    case (Some m)
    then have m: "m \<in> set old" "key m = key_of s i"
      by (auto simp: find_Some_iff)
    with Cons.prems obtain i' where "key m = key_of (src (state m)) i'" "inst m < n"
      by blast
    with m have s: "src (state m) = s" "inst m < n"
      using key_of_src [of s i "src (state m)" i'] by auto
    obtain ms rq n' where r: "reconcile old es n = (ms, rq, n')"
      by (cases "reconcile old es n")
    have "reconcile_ok old es n (reconcile old es n)"
      using Cons.prems by (intro Cons.IH)
    with r have "reconcile_ok old es n (ms, rq, n')" by simp
    then have "reconcile_ok old ((i, s) # es) n (m # ms, rq, n')"
      using m s by (intro reconcile_ok_kept)
    moreover have "ImagePreview_update s (state m) = (state m, [])"
      using s update_same [of "state m"] by simp
    ultimately show ?thesis
      using Some r e by simp
  qed
qed

lemma manager_invI:
  assumes "\<forall>m \<in> set (mounted mg).
        inst m < next_inst mg \<and>
        (\<exists>i. key m = key_of (src (state m)) i) \<and>
        (\<not> isS3Url (src (state m)) \<longrightarrow> state m = ImagePreview_init (src (state m)))"
    and "\<forall>q \<in> set (in_flight mg).
        fst q < next_inst mg \<and> isS3Url (snd q) \<and>
        (\<forall>m \<in> set (mounted mg). inst m = fst q \<longrightarrow> src (state m) = snd q)"
    and "map (\<lambda>m. src (state m)) (mounted mg) = current_images mg"
  shows "manager_inv mg"
  using assms unfolding manager_inv_def by blast

lemma manager_inv_render:
  assumes "manager_inv mg"
  shows "manager_inv (ImageManager_render mg imgs)"
proof -
  obtain ms rq n' where r: "reconcile (mounted mg) (enumerate 0 imgs) (next_inst mg) = (ms, rq, n')"
    by (cases "reconcile (mounted mg) (enumerate 0 imgs) (next_inst mg)")
  have old: "\<forall>m \<in> set (mounted mg). inst m < next_inst mg \<and> (\<exists>i. key m = key_of (src (state m)) i)"
    using assms by (simp add: manager_inv_def)
  have "reconcile_ok (mounted mg) (enumerate 0 imgs) (next_inst mg) (ms, rq, n')"
    using reconcile_result_ok [OF old, of "enumerate 0 imgs"] r by simp
  then have le: "next_inst mg \<le> n'"
    and ms: "\<forall>m \<in> set ms. m \<in> set (mounted mg) \<or> fresh_between (next_inst mg) n' m"
    and rq: "\<forall>q \<in> set rq. next_inst mg \<le> fst q \<and> fst q < n' \<and> isS3Url (snd q) \<and>
                       (\<forall>m \<in> set ms. inst m = fst q \<longrightarrow> src (state m) = snd q)"
    and srcs: "map (\<lambda>m. src (state m)) ms = imgs"
    unfolding reconcile_ok_def by auto
  have a: "\<forall>m \<in> set ms.
        inst m < n' \<and>
        (\<exists>i. key m = key_of (src (state m)) i) \<and>
        (\<not> isS3Url (src (state m)) \<longrightarrow> state m = ImagePreview_init (src (state m)))"
  proof
    fix m assume "m \<in> set ms"
    with ms consider "m \<in> set (mounted mg)" | "fresh_between (next_inst mg) n' m" by blast
    then show "inst m < n' \<and>
        (\<exists>i. key m = key_of (src (state m)) i) \<and>
        (\<not> isS3Url (src (state m)) \<longrightarrow> state m = ImagePreview_init (src (state m)))"
    proof cases
      case 1
      with assms le show ?thesis by (fastforce simp: manager_inv_def)
    next
      case 2
      then show ?thesis
        using mount_local [of "src (state m)"] by (auto simp: fresh_between_def)
    qed
  qed
  have b: "\<forall>q \<in> set (in_flight mg @ rq).
        fst q < n' \<and> isS3Url (snd q) \<and>
        (\<forall>m \<in> set ms. inst m = fst q \<longrightarrow> src (state m) = snd q)"
  proof
    fix q assume "q \<in> set (in_flight mg @ rq)"
    then consider "q \<in> set (in_flight mg)" | "q \<in> set rq" by auto
    then show "fst q < n' \<and> isS3Url (snd q) \<and>
        (\<forall>m \<in> set ms. inst m = fst q \<longrightarrow> src (state m) = snd q)"
    proof cases
      case 1
      with assms have q: "fst q < next_inst mg" "isS3Url (snd q)"
        "\<forall>m \<in> set (mounted mg). inst m = fst q \<longrightarrow> src (state m) = snd q"
        by (auto simp: manager_inv_def)
      have "\<forall>m \<in> set ms. inst m = fst q \<longrightarrow> src (state m) = snd q"
      proof (intro ballI impI)
        fix m assume m: "m \<in> set ms" "inst m = fst q"
        with ms q(1) have "m \<in> set (mounted mg)"
          by (auto simp: fresh_between_def)
        with q(3) m show "src (state m) = snd q" by blast
      qed
      with q le show ?thesis by auto
    next
      case 2
      with rq show ?thesis by blast
    qed
  qed
  show ?thesis
    using a b srcs r by (simp add: manager_inv_def ImageManager_render_def)
qed

lemma manager_inv_mount: "manager_inv (ImageManager_mount imgs)"
  unfolding ImageManager_mount_def
  by (rule manager_inv_render) (simp add: manager_inv_def)

lemma sign_settled_src: "src (sign_settled r p) = src p"
  by (simp add: sign_settled_def split: fetch_result.splits option.splits)

lemma settle_untouched:
  assumes "manager_inv mg" and "q \<in> set (in_flight mg)" and "m \<in> set (mounted mg)"
    and "src (state m) \<noteq> snd q"
  shows "(if inst m = fst q then m\<lparr>state := sign_settled r (state m)\<rparr> else m) = m"
  using assms by (auto simp: manager_inv_def)

lemma manager_inv_settle:
  assumes "manager_inv mg" and "step (SignSettled i r) mg = Some mg'"
  shows "manager_inv mg'"
proof -
  from assms(2) have i: "i < length (in_flight mg)"
    by (simp split: if_splits)
  let ?q = "in_flight mg ! i"
  let ?f = "\<lambda>m. if inst m = fst ?q then m\<lparr>state := sign_settled r (state m)\<rparr> else m"
  have q: "?q \<in> set (in_flight mg)" using i by simp
  with assms(1) have qS3: "isS3Url (snd ?q)"
    and qsrc: "\<forall>m \<in> set (mounted mg). inst m = fst ?q \<longrightarrow> src (state m) = snd ?q"
    by (auto simp: manager_inv_def)
  have mg': "mg' = mg\<lparr>mounted := map ?f (mounted mg),
                     in_flight := take i (in_flight mg) @ drop (Suc i) (in_flight mg)\<rparr>"
    using assms(2) i by simp
  have f: "\<forall>m \<in> set (mounted mg). inst (?f m) = inst m \<and> key (?f m) = key m \<and>
             src (state (?f m)) = src (state m) \<and>
             (\<not> isS3Url (src (state m)) \<longrightarrow> ?f m = m)"
    using qS3 qsrc by (auto simp: sign_settled_src)
  have sub: "set (take i (in_flight mg) @ drop (Suc i) (in_flight mg)) \<subseteq> set (in_flight mg)"
    using set_take_subset [of i "in_flight mg"] set_drop_subset [of "Suc i" "in_flight mg"]
    by auto
  have a: "\<forall>m' \<in> set (map ?f (mounted mg)).
        inst m' < next_inst mg \<and>
        (\<exists>i. key m' = key_of (src (state m')) i) \<and>
        (\<not> isS3Url (src (state m')) \<longrightarrow> state m' = ImagePreview_init (src (state m')))"
  proof
    fix m' assume "m' \<in> set (map ?f (mounted mg))"
    then obtain m where m: "m \<in> set (mounted mg)" "m' = ?f m" by auto
    with f have fm: "inst m' = inst m" "key m' = key m" "src (state m') = src (state m)"
      "\<not> isS3Url (src (state m)) \<longrightarrow> m' = m" by auto
    from m assms(1) have "inst m < next_inst mg" "\<exists>i. key m = key_of (src (state m)) i"
      "\<not> isS3Url (src (state m)) \<longrightarrow> state m = ImagePreview_init (src (state m))"
      by (auto simp: manager_inv_def)
    with fm show "inst m' < next_inst mg \<and>
        (\<exists>i. key m' = key_of (src (state m')) i) \<and>
        (\<not> isS3Url (src (state m')) \<longrightarrow> state m' = ImagePreview_init (src (state m')))"
      by auto
  qed
  have b: "\<forall>p \<in> set (take i (in_flight mg) @ drop (Suc i) (in_flight mg)).
        fst p < next_inst mg \<and> isS3Url (snd p) \<and>
        (\<forall>m' \<in> set (map ?f (mounted mg)). inst m' = fst p \<longrightarrow> src (state m') = snd p)"
  proof
    fix p assume "p \<in> set (take i (in_flight mg) @ drop (Suc i) (in_flight mg))"
    with sub have p: "p \<in> set (in_flight mg)" by blast
    with assms(1) have p1: "fst p < next_inst mg" "isS3Url (snd p)"
      and p2: "\<forall>m \<in> set (mounted mg). inst m = fst p \<longrightarrow> src (state m) = snd p"
      by (auto simp: manager_inv_def)
    have "\<forall>m' \<in> set (map ?f (mounted mg)). inst m' = fst p \<longrightarrow> src (state m') = snd p"
    proof (intro ballI impI)
      fix m' assume "m' \<in> set (map ?f (mounted mg))" and eq: "inst m' = fst p"
      then obtain m where m: "m \<in> set (mounted mg)" "m' = ?f m" by auto
      with f have "inst m' = inst m" "src (state m') = src (state m)" by auto
      with p2 m eq show "src (state m') = snd p" by auto
    qed
    with p1 show "fst p < next_inst mg \<and> isS3Url (snd p) \<and>
        (\<forall>m' \<in> set (map ?f (mounted mg)). inst m' = fst p \<longrightarrow> src (state m') = snd p)"
      by blast
  qed
  have c: "map (\<lambda>m. src (state m)) (map ?f (mounted mg)) = current_images mg"
  proof -
    have "map (\<lambda>m. src (state m)) (map ?f (mounted mg)) = map (\<lambda>m. src (state m)) (mounted mg)"
      using f by (simp add: o_def cong: map_cong)
    with assms(1) show ?thesis by (simp add: manager_inv_def)
  qed
  have fields: "mounted mg' = map ?f (mounted mg)"
    "in_flight mg' = take i (in_flight mg) @ drop (Suc i) (in_flight mg)"
    "next_inst mg' = next_inst mg" "current_images mg' = current_images mg"
    by (simp_all add: mg')
  show ?thesis
  proof (rule manager_invI)
    show "\<forall>m \<in> set (mounted mg').
        inst m < next_inst mg' \<and>
        (\<exists>i. key m = key_of (src (state m)) i) \<and>
        (\<not> isS3Url (src (state m)) \<longrightarrow> state m = ImagePreview_init (src (state m)))"
      unfolding fields by (rule a)
    show "\<forall>q \<in> set (in_flight mg').
        fst q < next_inst mg' \<and> isS3Url (snd q) \<and>
        (\<forall>m \<in> set (mounted mg'). inst m = fst q \<longrightarrow> src (state m) = snd q)"
      unfolding fields by (rule b)
    show "map (\<lambda>m. src (state m)) (mounted mg') = current_images mg'"
      unfolding fields by (rule c)
  qed
qed

lemma shows_img_tag_S3: "shows_img_tag p \<Longrightarrow> isS3Url (src p)"
  by (auto simp: shows_img_tag_def ImagePreview_view_def split: if_splits)

lemma manager_inv_img_error:
  assumes "manager_inv mg" and "step (ImgError j) mg = Some mg'"
  shows "manager_inv mg'"
proof -
  from assms(2) have j: "j < length (mounted mg)" and tag: "shows_img_tag (state (mounted mg ! j))"
    by (simp_all split: if_splits)
  let ?m = "mounted mg ! j"
  let ?m' = "?m\<lparr>state := img_onError (state ?m)\<rparr>"
  have mg': "mg' = mg\<lparr>mounted := (mounted mg)[j := ?m']\<rparr>"
    using assms(2) j tag by simp
  have mj: "?m \<in> set (mounted mg)" using j by simp
  have S3: "isS3Url (src (state ?m'))"
    using shows_img_tag_S3 [OF tag] by (simp add: img_onError_def)
  have same: "inst ?m' = inst ?m" "key ?m' = key ?m" "src (state ?m') = src (state ?m)"
    by (simp_all add: img_onError_def)
  have mem: "\<forall>m \<in> set ((mounted mg)[j := ?m']). m \<in> set (mounted mg) \<or> m = ?m'"
    using set_update_subset_insert [of "mounted mg" j ?m'] by auto
  have a: "\<forall>m \<in> set ((mounted mg)[j := ?m']).
        inst m < next_inst mg \<and>
        (\<exists>i. key m = key_of (src (state m)) i) \<and>
        (\<not> isS3Url (src (state m)) \<longrightarrow> state m = ImagePreview_init (src (state m)))"
  proof
    fix m assume "m \<in> set ((mounted mg)[j := ?m'])"
    with mem consider "m \<in> set (mounted mg)" | "m = ?m'" by blast
    then show "inst m < next_inst mg \<and>
        (\<exists>i. key m = key_of (src (state m)) i) \<and>
        (\<not> isS3Url (src (state m)) \<longrightarrow> state m = ImagePreview_init (src (state m)))"
    proof cases
      case 1
      with assms(1) show ?thesis by (simp add: manager_inv_def)
    next
      case 2
      from mj assms(1) have "inst ?m < next_inst mg" "\<exists>i. key ?m = key_of (src (state ?m)) i"
        by (auto simp: manager_inv_def)
      with 2 S3 same show ?thesis by simp
    qed
  qed
  have b: "\<forall>p \<in> set (in_flight mg).
        fst p < next_inst mg \<and> isS3Url (snd p) \<and>
        (\<forall>m \<in> set ((mounted mg)[j := ?m']). inst m = fst p \<longrightarrow> src (state m) = snd p)"
  proof
    fix p assume p: "p \<in> set (in_flight mg)"
    with assms(1) have p1: "fst p < next_inst mg" "isS3Url (snd p)"
      and p2: "\<forall>m \<in> set (mounted mg). inst m = fst p \<longrightarrow> src (state m) = snd p"
      by (auto simp: manager_inv_def)
    have "\<forall>m \<in> set ((mounted mg)[j := ?m']). inst m = fst p \<longrightarrow> src (state m) = snd p"
    proof (intro ballI impI)
      fix m assume "m \<in> set ((mounted mg)[j := ?m'])" and eq: "inst m = fst p"
      with mem consider "m \<in> set (mounted mg)" | "m = ?m'" by blast
      then show "src (state m) = snd p"
      proof cases
        case 1
        with p2 eq show ?thesis by blast
      next
        case 2
        with p2 mj eq same show ?thesis by simp
      qed
    qed
    with p1 show "fst p < next_inst mg \<and> isS3Url (snd p) \<and>
        (\<forall>m \<in> set ((mounted mg)[j := ?m']). inst m = fst p \<longrightarrow> src (state m) = snd p)"
      by blast
  qed
  have c: "map (\<lambda>m. src (state m)) ((mounted mg)[j := ?m']) = current_images mg"
  proof -
    have "map (\<lambda>m. src (state m)) ((mounted mg)[j := ?m'])
            = (map (\<lambda>m. src (state m)) (mounted mg))[j := src (state ?m)]"
      using same by (simp add: map_update)
    also have "\<dots> = map (\<lambda>m. src (state m)) (mounted mg)"
      using j by (simp add: list_update_same_conv)
    finally show ?thesis using assms(1) by (simp add: manager_inv_def)
  qed
  have fields: "mounted mg' = (mounted mg)[j := ?m']" "in_flight mg' = in_flight mg"
    "next_inst mg' = next_inst mg" "current_images mg' = current_images mg"
    by (simp_all add: mg')
  show ?thesis
  proof (rule manager_invI)
    show "\<forall>m \<in> set (mounted mg').
        inst m < next_inst mg' \<and>
        (\<exists>i. key m = key_of (src (state m)) i) \<and>
        (\<not> isS3Url (src (state m)) \<longrightarrow> state m = ImagePreview_init (src (state m)))"
      unfolding fields by (rule a)
    show "\<forall>q \<in> set (in_flight mg').
        fst q < next_inst mg' \<and> isS3Url (snd q) \<and>
        (\<forall>m \<in> set (mounted mg'). inst m = fst q \<longrightarrow> src (state m) = snd q)"
      unfolding fields by (rule b)
    show "map (\<lambda>m. src (state m)) (mounted mg') = current_images mg'"
      unfolding fields by (rule c)
  qed
qed

lemma manager_inv_step:
  assumes "manager_inv mg" and "step e mg = Some mg'"
  shows "manager_inv mg'"
proof (cases e)
  case (Rerender imgs)
  with assms show ?thesis using manager_inv_render [of mg imgs] by simp
next
  case (SignSettled i r)
  with assms show ?thesis using manager_inv_settle by blast
next
  case (ImgError j)
  with assms show ?thesis using manager_inv_img_error by blast
qed

lemma manager_inv_run:
  assumes "manager_inv mg" and "run mg evs = Some mg'"
  shows "manager_inv mg'"
  using assms
proof (induction evs arbitrary: mg)
  case Nil
  then show ?case by simp
next
  case (Cons e evs)
  then obtain mg1 where "step e mg = Some mg1" "run mg1 evs = Some mg'"
    by (auto split: option.splits)
  with Cons show ?case using manager_inv_step by blast
qed

lemma reachable_inv: "run (ImageManager_mount imgs) evs = Some mg \<Longrightarrow> manager_inv mg"
  using manager_inv_run [OF manager_inv_mount] .

lemma reachable_held_reference:
  assumes "manager_inv mg" and "j < length (current_images mg)"
  shows "j < length (mounted mg) \<and> src (state (mounted mg ! j)) = current_images mg ! j"
proof -
  from assms(1) have eq: "map (\<lambda>m. src (state m)) (mounted mg) = current_images mg"
    by (simp add: manager_inv_def)
  then have len: "length (mounted mg) = length (current_images mg)"
    using length_map [of "\<lambda>m. src (state m)" "mounted mg"] by simp
  with assms(2) have j: "j < length (mounted mg)" by simp
  then have "map (\<lambda>m. src (state m)) (mounted mg) ! j = src (state (mounted mg ! j))"
    by (rule nth_map)
  with eq j show ?thesis by simp
qed

section \<open>The previews: the claims\<close>

text \<open>
  Claim C2. Take any state the manager can reach from mounting, any signing request still
  in flight there and any position of the list whose current reference is not the one
  that request was issued for (so the reference shown there changed after the request
  was issued, or the request belongs to another entry). When the request settles, with
  whatever answer, the preview at that position is left exactly as it was: its signed URL
  and its loading and error flags keep belonging to the reference it holds, which is the
  current entry of \<^verbatim>\<open>images\<close>. The component has no comparison of its own; the
  key \<^verbatim>\<open>`${src}-${i}`\<close> makes a changed reference a new instance, and the handlers of
  the old request act on the old, unmounted instance.
\<close>

theorem stale_sign_result_not_applied:
  assumes "run (ImageManager_mount imgs) evs = Some mg"
    and "i < length (in_flight mg)"
    and "j < length (current_images mg)"
    and "snd (in_flight mg ! i) \<noteq> current_images mg ! j"
  shows "\<exists>mg'. step (SignSettled i r) mg = Some mg' \<and>
               current_images mg' = current_images mg \<and>
               src (state (mounted mg ! j)) = current_images mg ! j \<and>
               mounted mg' ! j = mounted mg ! j"
proof -
  have inv: "manager_inv mg" using assms(1) by (rule reachable_inv)
  from reachable_held_reference [OF inv assms(3)]
  have j: "j < length (mounted mg)" and held: "src (state (mounted mg ! j)) = current_images mg ! j"
    by simp_all
  let ?q = "in_flight mg ! i"
  let ?f = "\<lambda>m. if inst m = fst ?q then m\<lparr>state := sign_settled r (state m)\<rparr> else m"
  have "?q \<in> set (in_flight mg)" using assms(2) by simp
  moreover have "mounted mg ! j \<in> set (mounted mg)" using j by simp
  moreover have "src (state (mounted mg ! j)) \<noteq> snd ?q" using held assms(4) by simp
  ultimately have "?f (mounted mg ! j) = mounted mg ! j"
    using inv by (rule settle_untouched [rotated 1])
  then have "map ?f (mounted mg) ! j = mounted mg ! j"
    using j by simp
  with assms(2) held show ?thesis by simp
qed

theorem stale_sign_result_not_applied_witness:
  "run (ImageManager_mount [''a.s3.x'']) [Rerender [''b.s3.x'']]
     = Some \<lparr>current_images = [''b.s3.x''],
             mounted = [\<lparr>key = ''b.s3.x-0'', inst = 1,
                         state = \<lparr>src = ''b.s3.x'', signedUrl = ''b.s3.x'', loading = True,
                                   error = False\<rparr>\<rparr>],
             in_flight = [(0, ''a.s3.x''), (1, ''b.s3.x'')], next_inst = 2\<rparr> \<and>
   (\<exists>mg'. step (SignSettled 0 (HttpResponse 200
                   (Some \<lparr>body_signedUrl = Some ''https://signed.example/a'', sign_error = None\<rparr>)))
             \<lparr>current_images = [''b.s3.x''],
              mounted = [\<lparr>key = ''b.s3.x-0'', inst = 1,
                          state = \<lparr>src = ''b.s3.x'', signedUrl = ''b.s3.x'', loading = True,
                                    error = False\<rparr>\<rparr>],
              in_flight = [(0, ''a.s3.x''), (1, ''b.s3.x'')], next_inst = 2\<rparr> = Some mg' \<and>
          mounted mg' ! 0
            = \<lparr>key = ''b.s3.x-0'', inst = 1,
               state = \<lparr>src = ''b.s3.x'', signedUrl = ''b.s3.x'', loading = True,
                         error = False\<rparr>\<rparr>)"
proof -
  let ?mg = "\<lparr>current_images = [''b.s3.x''],
             mounted = [\<lparr>key = ''b.s3.x-0'', inst = 1,
                         state = \<lparr>src = ''b.s3.x'', signedUrl = ''b.s3.x'', loading = True,
                                   error = False\<rparr>\<rparr>],
             in_flight = [(0, ''a.s3.x''), (1, ''b.s3.x'')], next_inst = 2\<rparr>"
  have reached: "run (ImageManager_mount [''a.s3.x'']) [Rerender [''b.s3.x'']] = Some ?mg"
    by code_simp
  have "0 < length (in_flight ?mg)" "0 < length (current_images ?mg)"
    "snd (in_flight ?mg ! 0) \<noteq> current_images ?mg ! 0"
    by simp_all
  from stale_sign_result_not_applied [OF reached this] reached
  show ?thesis by simp
qed

text \<open>
  Claim C6. For a reference that does not match the object-storage pattern: mounting its
  preview issues no request and leaves the state cells at their initial values; and in
  every state the manager can reach, wherever that reference is the current entry of
  \<^verbatim>\<open>images\<close>, its preview is in that initial state (not loading, not failed), renders
  the reference itself through \<^verbatim>\<open>next/image\<close>, and no request in flight was issued
  for it or by its instance.
\<close>

theorem local_reference_renders_directly:
  assumes "\<not> isS3Url r"
    and "run (ImageManager_mount imgs) evs = Some mg"
    and "j < length (current_images mg)"
    and "current_images mg ! j = r"
  shows "ImagePreview_mount r = (ImagePreview_init r, []) \<and>
         state (mounted mg ! j) = ImagePreview_init r \<and>
         ImagePreview_view (state (mounted mg ! j)) = Shown (NextImage r) \<and>
         (\<forall>q \<in> set (in_flight mg). fst q \<noteq> inst (mounted mg ! j) \<and> snd q \<noteq> r)"
proof -
  have inv: "manager_inv mg" using assms(2) by (rule reachable_inv)
  from reachable_held_reference [OF inv assms(3)] assms(4)
  have j: "j < length (mounted mg)" and held: "src (state (mounted mg ! j)) = r"
    by simp_all
  let ?m = "mounted mg ! j"
  have m: "?m \<in> set (mounted mg)" using j by simp
  with inv assms(1) held have st: "state ?m = ImagePreview_init r"
    by (auto simp: manager_inv_def)
  have view: "ImagePreview_view (state ?m) = Shown (NextImage r)"
    using st assms(1) by (simp add: ImagePreview_view_def ImagePreview_init_def)
  have mount: "ImagePreview_mount r = (ImagePreview_init r, [])"
    using assms(1) by (simp add: ImagePreview_mount_def ImagePreview_effect_def ImagePreview_init_def)
  have "\<forall>q \<in> set (in_flight mg). fst q \<noteq> inst ?m \<and> snd q \<noteq> r"
  proof
    fix q assume q: "q \<in> set (in_flight mg)"
    with inv have S3: "isS3Url (snd q)"
      and tgt: "\<forall>m \<in> set (mounted mg). inst m = fst q \<longrightarrow> src (state m) = snd q"
      by (auto simp: manager_inv_def)
    from S3 assms(1) have ne: "snd q \<noteq> r" by auto
    from tgt m held ne have "fst q \<noteq> inst ?m" by auto
    with ne show "fst q \<noteq> inst ?m \<and> snd q \<noteq> r" by simp
  qed
  with mount st view show ?thesis by simp
qed

theorem local_reference_renders_directly_witness:
  "\<not> isS3Url ''/uploads/l.png'' \<and>
   run (ImageManager_mount [''a.s3.x'', ''/uploads/l.png'']) [SignSettled 0 NetworkError]
     = Some \<lparr>current_images = [''a.s3.x'', ''/uploads/l.png''],
             mounted = [\<lparr>key = ''a.s3.x-0'', inst = 0,
                         state = \<lparr>src = ''a.s3.x'', signedUrl = ''a.s3.x'', loading = False,
                                   error = True\<rparr>\<rparr>,
                        \<lparr>key = ''/uploads/l.png-1'', inst = 1,
                         state = \<lparr>src = ''/uploads/l.png'', signedUrl = ''/uploads/l.png'',
                                   loading = False, error = False\<rparr>\<rparr>],
             in_flight = [], next_inst = 2\<rparr> \<and>
   ImagePreview_mount ''/uploads/l.png'' = (ImagePreview_init ''/uploads/l.png'', []) \<and>
   ImagePreview_view \<lparr>src = ''/uploads/l.png'', signedUrl = ''/uploads/l.png'',
                      loading = False, error = False\<rparr> = Shown (NextImage ''/uploads/l.png'')"
proof -
  let ?mg = "\<lparr>current_images = [''a.s3.x'', ''/uploads/l.png''],
             mounted = [\<lparr>key = ''a.s3.x-0'', inst = 0,
                         state = \<lparr>src = ''a.s3.x'', signedUrl = ''a.s3.x'', loading = False,
                                   error = True\<rparr>\<rparr>,
                        \<lparr>key = ''/uploads/l.png-1'', inst = 1,
                         state = \<lparr>src = ''/uploads/l.png'', signedUrl = ''/uploads/l.png'',
                                   loading = False, error = False\<rparr>\<rparr>],
             in_flight = [], next_inst = 2\<rparr>"
  have local: "\<not> isS3Url ''/uploads/l.png''"
    by (simp add: isS3Url_def)
  have reached: "run (ImageManager_mount [''a.s3.x'', ''/uploads/l.png'']) [SignSettled 0 NetworkError]
                   = Some ?mg"
    by code_simp
  have "1 < length (current_images ?mg)" "current_images ?mg ! 1 = ''/uploads/l.png''"
    by simp_all
  from local_reference_renders_directly [OF local reached this]
  have shown: "ImagePreview_mount ''/uploads/l.png'' = (ImagePreview_init ''/uploads/l.png'', []) \<and>
     ImagePreview_view \<lparr>src = ''/uploads/l.png'', signedUrl = ''/uploads/l.png'',
                        loading = False, error = False\<rparr> = Shown (NextImage ''/uploads/l.png'')"
    by (simp add: ImagePreview_init_def)
  show ?thesis
    by (rule conjI [OF local conjI [OF reached shown]])
qed

end
